theory Spec2Isabelle
  imports Complex_Main "HOL-Library.Word" "HOL-Library.Log_Nat"
begin

section \<open>Machine types of \<^verbatim>\<open>src/main.cpp\<close>\<close>

text \<open>
  \<^verbatim>\<open>using ull = unsigned long long;\<close> is a 64-bit unsigned integer: addition,
  subtraction and multiplication wrap around modulo \<open>2 ^ 64\<close>.
\<close>

type_synonym ull = "64 word"

text \<open>
  A finite \<^verbatim>\<open>double\<close> (IEEE 754 binary64) is modelled by the real number it denotes.
  Every arithmetic operation of the source on doubles is the exact operation followed by
  rounding to the nearest value with a 53-bit significand, ties to the even significand.
  All values that the functions below round are \<open>0\<close> or lie between \<open>100 / 2 ^ 64\<close>
  and \<open>100 * 2 ^ 64\<close>, far inside the normal range of the format, so neither overflow
  nor gradual underflow has to be modelled. The operations are those of SSE2 code on
  x86-64 and of any target that evaluates \<^verbatim>\<open>double\<close> expressions in binary64.
\<close>

type_synonym double = real

text \<open>\<open>ilog2 x\<close> is the binary exponent of a positive real: \<open>2 ^ ilog2 x \<le> x < 2 ^ (ilog2 x + 1)\<close>.\<close>

definition ilog2 :: "real \<Rightarrow> int" where
  "ilog2 x = (if 1 \<le> x then bitlen \<lfloor>x\<rfloor> - 1 else - bitlen (\<lceil>1 / x\<rceil> - 1))"

text \<open>Rounding a real to the nearest integer, a tie going to the even neighbour.\<close>

definition round_even :: "real \<Rightarrow> int" where
  "round_even r =
     (let f = \<lfloor>r\<rfloor>; d = r - of_int f
      in if d < 1 / 2 then f else if 1 / 2 < d then f + 1 else if even f then f else f + 1)"

definition round_double :: "real \<Rightarrow> double" where
  "round_double x =
     (if x = 0 then 0
      else let e = ilog2 \<bar>x\<bar> - 52
           in sgn x * of_int (round_even (\<bar>x\<bar> * 2 powi (- e))) * 2 powi e)"

text \<open>The conversion \<^verbatim>\<open>(double)n\<close> of an \<^verbatim>\<open>ull\<close>, and the operators \<^verbatim>\<open>*\<close> and \<^verbatim>\<open>/\<close> on doubles.\<close>

definition ull_to_double :: "ull \<Rightarrow> double" where
  "ull_to_double n = round_double (real (unat n))"

definition fmul :: "double \<Rightarrow> double \<Rightarrow> double" where
  "fmul x y = round_double (x * y)"

definition fdiv :: "double \<Rightarrow> double \<Rightarrow> double" where
  "fdiv x y = round_double (x / y)"


section \<open>CPU usage: \<^verbatim>\<open>get_cpu_usage\<close>\<close>

text \<open>The eight local variables that line 53 extracts from \<^verbatim>\<open>/proc/stat\<close>.\<close>

record cpu_ticks =
  user :: ull
  nice :: ull
  system :: ull
  idle :: ull
  iowait :: ull
  irq :: ull
  softirq :: ull
  steal :: ull

text \<open>
  What the function sees of \<^verbatim>\<open>/proc/stat\<close>. \<open>Unopenable\<close>: \<^verbatim>\<open>file.is_open()\<close> is false.
  \<open>Opened ok t\<close>: the stream is open, and after the chained extraction
  \<^verbatim>\<open>file >> cpu_label >> user >> ... >> steal\<close> the eight variables hold \<open>t\<close>; \<open>ok\<close> tells
  whether every extraction succeeded. When one fails (an empty file, a token that is not
  a number), the stream skips the extractions after it, and their variables, declared
  without an initialiser on line 51, keep whatever they held: in that case \<open>t\<close> is
  arbitrary. The source never tests the stream after line 46, so \<open>ok\<close> is not read
  below.
\<close>

datatype proc_stat = Unopenable | Opened bool cpu_ticks

text \<open>The three function-local \<^verbatim>\<open>static\<close> variables, with their initialisers.\<close>

record cpu_state =
  first_call :: bool
  last_total :: ull
  last_idle :: ull

definition cpu_init :: cpu_state where
  "cpu_init = \<lparr>first_call = True, last_total = 0, last_idle = 0\<rparr>"

definition idle_time :: "cpu_ticks \<Rightarrow> ull" where
  "idle_time t = idle t + iowait t"

definition non_idle_time :: "cpu_ticks \<Rightarrow> ull" where
  "non_idle_time t = user t + nice t + system t + irq t + softirq t + steal t"

definition total_time :: "cpu_ticks \<Rightarrow> ull" where
  "total_time t = idle_time t + non_idle_time t"

text \<open>One call: the returned double and the statics after the call.\<close>

definition get_cpu_usage :: "cpu_state \<Rightarrow> proc_stat \<Rightarrow> double \<times> cpu_state" where
  "get_cpu_usage st file =
     (case file of
        Unopenable \<Rightarrow> (- 1, st)
      | Opened ok t \<Rightarrow>
          if first_call st
          then (0, st\<lparr>last_total := total_time t, last_idle := idle_time t, first_call := False\<rparr>)
          else
            let total_delta = total_time t - last_total st;
                idle_delta = idle_time t - last_idle st;
                st' = st\<lparr>last_total := total_time t, last_idle := idle_time t\<rparr>
            in if total_delta = 0 then (0, st')
               else (fdiv (fmul 100 (ull_to_double (total_delta - idle_delta)))
                          (ull_to_double total_delta), st'))"

text \<open>
  The loop of \<^verbatim>\<open>main\<close> calls the function once per cycle (line 394): the values it
  returns over a sequence of reads of \<^verbatim>\<open>/proc/stat\<close>, the statics threaded through.
\<close>

fun cpu_usages :: "cpu_state \<Rightarrow> proc_stat list \<Rightarrow> double list" where
  "cpu_usages st [] = []"
| "cpu_usages st (file # files) =
     (let (cpu_usage, st') = get_cpu_usage st file in cpu_usage # cpu_usages st' files)"

text \<open>
  The formula of the specification, \<^verbatim>\<open>usage = 100 * (total_delta - idle_delta) / total_delta\<close>,
  as the real number it denotes for two counter deltas.
\<close>

definition spec_usage :: "ull \<Rightarrow> ull \<Rightarrow> real" where
  "spec_usage total_delta idle_delta =
     100 * (real (unat total_delta) - real (unat idle_delta)) / real (unat total_delta)"


section \<open>Disk usage: \<^verbatim>\<open>get_disk_usage\<close>\<close>

text \<open>
  The fields of \<^verbatim>\<open>struct statvfs\<close> that the function reads. The outcome of the call
  \<^verbatim>\<open>statvfs(path, &filesystem_stats)\<close> is \<open>None\<close> when it returns non-zero.
\<close>

record statvfs_t =
  f_blocks :: ull
  f_frsize :: ull
  f_bavail :: ull

definition get_disk_usage :: "statvfs_t option \<Rightarrow> double" where
  "get_disk_usage r =
     (case r of
        None \<Rightarrow> - 1
      | Some filesystem_stats \<Rightarrow>
          let total_space = f_blocks filesystem_stats * f_frsize filesystem_stats;
              available_space = f_bavail filesystem_stats * f_frsize filesystem_stats
          in if total_space = 0 then 0
             else fdiv (fmul (ull_to_double (total_space - available_space)) 100)
                       (ull_to_double total_space))"


section \<open>Network rates: the loop of \<^verbatim>\<open>main\<close>, lines 404 to 431\<close>

text \<open>
  A \<^verbatim>\<open>std::map<std::string, std::pair<ull, ull>>\<close> is given by its entries in iteration
  order (ascending keys, no key twice); \<open>map_of\<close> is the lookup by key.
\<close>

type_synonym net_stats = "(string \<times> ull \<times> ull) list"

text \<open>Lines 417 to 421: the previous counters of an interface, \<open>0\<close> when it has none.\<close>

definition previous_counters :: "net_stats \<Rightarrow> string \<Rightarrow> ull \<times> ull" where
  "previous_counters previous_network_stats interface_name =
     (case map_of previous_network_stats interface_name of
        None \<Rightarrow> (0, 0)
      | Some p \<Rightarrow> p)"

text \<open>Lines 424 and 425.\<close>

definition counter_delta :: "ull \<Rightarrow> ull \<Rightarrow> ull" where
  "counter_delta current previous = (if previous \<le> current then current - previous else 0)"

text \<open>
  The \<^verbatim>\<open>for\<close> loop of lines 409 to 429 over the entries that are left, with the
  accumulators \<^verbatim>\<open>total_rx_rate\<close> and \<^verbatim>\<open>total_tx_rate\<close>.
\<close>

fun sum_rates :: "net_stats \<Rightarrow> net_stats \<Rightarrow> ull \<times> ull \<Rightarrow> ull \<times> ull" where
  "sum_rates previous_network_stats [] totals = totals"
| "sum_rates previous_network_stats ((interface_name, current_rx, current_tx) # rest)
     (total_rx_rate, total_tx_rate) =
     (if interface_name = ''lo''
      then sum_rates previous_network_stats rest (total_rx_rate, total_tx_rate)
      else
        let (previous_rx, previous_tx) = previous_counters previous_network_stats interface_name;
            rx_delta = counter_delta current_rx previous_rx;
            tx_delta = counter_delta current_tx previous_tx
        in sum_rates previous_network_stats rest
             (total_rx_rate + rx_delta, total_tx_rate + tx_delta))"

text \<open>\<^verbatim>\<open>const double time_interval = 1.0;\<close> cast to \<^verbatim>\<open>ull\<close> on lines 464 and 465.\<close>

definition time_interval :: ull where
  "time_interval = 1"

text \<open>
  One cycle of the loop of \<^verbatim>\<open>main\<close>, as far as the network is concerned: the two rates
  handed to \<^verbatim>\<open>format_bytes\<close>, and the new \<^verbatim>\<open>previous_network_stats\<close> (line 431).
\<close>

definition network_rates :: "net_stats \<Rightarrow> net_stats \<Rightarrow> (ull \<times> ull) \<times> net_stats" where
  "network_rates previous_network_stats current_network_stats =
     (let (total_rx_rate, total_tx_rate) =
            sum_rates previous_network_stats current_network_stats (0, 0)
      in ((total_rx_rate div time_interval, total_tx_rate div time_interval),
          current_network_stats))"

text \<open>What a single entry of the current sample adds to the two accumulators.\<close>

definition contribution :: "net_stats \<Rightarrow> string \<times> ull \<times> ull \<Rightarrow> ull \<times> ull" where
  "contribution previous_network_stats entry = sum_rates previous_network_stats [entry] (0, 0)"


section \<open>Rounding to binary64\<close>

lemma ilog2_bounds:
  assumes "0 < x"
  shows "2 powi (ilog2 x) \<le> x" and "x < 2 powi (ilog2 x + 1)"
proof -
  have "2 powi (ilog2 x) \<le> x \<and> x < 2 powi (ilog2 x + 1)"
  proof (cases "1 \<le> x")
    case True
    define n where "n = \<lfloor>x\<rfloor>"
    have n: "0 < n" using True by (simp add: n_def)
    have k: "0 \<le> bitlen n - 1" using n by (simp add: bitlen_alt_def)
    have e: "ilog2 x = bitlen n - 1" using True by (simp add: ilog2_def n_def)
    from bitlen_bounds [OF n]
    have lo: "2 ^ nat (bitlen n - 1) \<le> n" and hi: "n < 2 ^ nat (bitlen n)" by simp_all
    have "(2::real) ^ nat (bitlen n - 1) \<le> of_int n"
      using lo by (metis of_int_le_iff of_int_numeral of_int_power)
    also have "of_int n \<le> x" by (simp add: n_def)
    finally have A: "2 powi (ilog2 x) \<le> x" using k by (simp add: e power_int_def)
    have "n + 1 \<le> 2 ^ nat (bitlen n)" using hi by simp
    then have "of_int (n + 1) \<le> (2::real) ^ nat (bitlen n)"
      by (metis of_int_le_iff of_int_numeral of_int_power)
    moreover have "x < of_int (n + 1)" by (simp add: n_def)
    ultimately have "x < 2 ^ nat (bitlen n)" by linarith
    then have B: "x < 2 powi (ilog2 x + 1)" using k by (simp add: e power_int_def)
    from A B show ?thesis ..
  next
    case False
    define y where "y = 1 / x"
    define c where "c = \<lceil>y\<rceil>"
    define k where "k = bitlen (c - 1)"
    have y: "1 < y" using False assms by (simp add: y_def)
    have c: "0 < c - 1" using y by (simp add: c_def less_ceiling_iff)
    have k1: "1 \<le> k" using c by (simp add: k_def bitlen_alt_def)
    have e: "ilog2 x = - k" using False by (simp add: ilog2_def k_def c_def y_def)
    from bitlen_bounds [OF c]
    have lo: "2 ^ nat (k - 1) \<le> c - 1" and hi: "c - 1 < 2 ^ nat k" by (simp_all add: k_def)
    have "(2::real) ^ nat (k - 1) \<le> of_int (c - 1)"
      using lo by (metis of_int_le_iff of_int_numeral of_int_power)
    also have "of_int (c - 1) < y" by (simp add: c_def) linarith
    finally have ylo: "2 ^ nat (k - 1) < y" .
    have "c \<le> 2 ^ nat k" using hi by simp
    then have "of_int c \<le> (2::real) ^ nat k"
      by (metis of_int_le_iff of_int_numeral of_int_power)
    moreover have "y \<le> of_int c" by (simp add: c_def)
    ultimately have yhi: "y \<le> 2 ^ nat k" by linarith
    have x: "x = 1 / y" using assms by (simp add: y_def)
    have ypos: "0 < y" using y by simp
    have "1 / 2 ^ nat k \<le> 1 / y"
      using yhi ypos by (simp add: frac_le)
    moreover have "(2::real) powi (ilog2 x) = 1 / 2 ^ nat k"
      using k1 by (simp add: e power_int_def field_simps)
    ultimately have A: "2 powi (ilog2 x) \<le> x"
      using x by simp
    have "1 / y < 1 / 2 ^ nat (k - 1)"
      using ylo by (simp add: frac_less2)
    moreover have "(2::real) powi (ilog2 x + 1) = 1 / 2 ^ nat (k - 1)"
      using k1 by (simp add: e power_int_def field_simps)
    ultimately have B: "x < 2 powi (ilog2 x + 1)" using x by simp
    from A B show ?thesis ..
  qed
  then show "2 powi (ilog2 x) \<le> x" and "x < 2 powi (ilog2 x + 1)" by simp_all
qed

lemma round_even_le: "of_int (round_even r) \<le> r + 1 / 2"
  by (simp add: round_even_def Let_def) linarith

lemma round_even_ge: "r - 1 / 2 \<le> of_int (round_even r)"
  by (simp add: round_even_def Let_def) linarith

lemma round_even_of_int: "round_even (of_int n) = n"
  by (simp add: round_even_def)

lemma round_even_mono:
  assumes "r \<le> s"
  shows "round_even r \<le> round_even s"
proof (cases "\<lfloor>r\<rfloor> = \<lfloor>s\<rfloor>")
  case True
  with assms show ?thesis by (simp add: round_even_def Let_def)
next
  case False
  with assms have less: "\<lfloor>r\<rfloor> + 1 \<le> \<lfloor>s\<rfloor>"
    using floor_mono [of r s] by linarith
  have "round_even r \<le> \<lfloor>r\<rfloor> + 1" by (simp add: round_even_def Let_def)
  moreover have "\<lfloor>s\<rfloor> \<le> round_even s" by (simp add: round_even_def Let_def)
  ultimately show ?thesis using less by linarith
qed

lemma scaled_bounds:
  assumes "0 < x"
  shows "2 ^ 52 \<le> x * 2 powi (- (ilog2 x - 52))" and "x * 2 powi (- (ilog2 x - 52)) < 2 ^ 53"
proof -
  define p :: real where "p = 2 powi (ilog2 x)"
  have pos: "0 < p" by (simp add: p_def zero_less_power_int)
  have "(2::real) powi (- (ilog2 x - 52)) = 2 powi 52 * 2 powi (- ilog2 x)"
    using power_int_add [of "2::real" 52 "- ilog2 x"] by simp
  then have eq: "x * 2 powi (- (ilog2 x - 52)) = 2 ^ 52 * (x / p)"
    by (simp add: p_def power_int_minus field_simps)
  have "1 \<le> x / p"
    using ilog2_bounds(1) [OF assms] pos by (simp add: p_def le_divide_eq)
  then have "2 ^ 52 * 1 \<le> 2 ^ 52 * (x / p)"
    by (intro mult_left_mono) simp_all
  then show "2 ^ 52 \<le> x * 2 powi (- (ilog2 x - 52))"
    unfolding eq by simp
  have "(2::real) powi (ilog2 x + 1) = 2 * p"
    by (simp add: p_def power_int_add)
  then have "x / p < 2"
    using ilog2_bounds(2) [OF assms] pos by (simp add: divide_less_eq)
  then have "2 ^ 52 * (x / p) < 2 ^ 52 * 2"
    by (intro mult_strict_left_mono) simp_all
  then show "x * 2 powi (- (ilog2 x - 52)) < 2 ^ 53"
    unfolding eq by simp
qed

lemma round_double_pos_eq:
  "0 < x \<Longrightarrow> round_double x =
     of_int (round_even (x * 2 powi (- (ilog2 x - 52)))) * 2 powi (ilog2 x - 52)"
  by (simp add: round_double_def Let_def)

lemma significand_bounds:
  assumes "0 < x"
  shows "2 ^ 52 \<le> round_even (x * 2 powi (- (ilog2 x - 52)))"
    and "round_even (x * 2 powi (- (ilog2 x - 52))) \<le> 2 ^ 53"
proof -
  have "round_even (of_int (2 ^ 52)) \<le> round_even (x * 2 powi (- (ilog2 x - 52)))"
    using scaled_bounds(1) [OF assms] by (intro round_even_mono) simp
  then show "2 ^ 52 \<le> round_even (x * 2 powi (- (ilog2 x - 52)))"
    by (simp only: round_even_of_int)
  have "round_even (x * 2 powi (- (ilog2 x - 52))) \<le> round_even (of_int (2 ^ 53))"
    using scaled_bounds(2) [OF assms] by (intro round_even_mono) simp
  then show "round_even (x * 2 powi (- (ilog2 x - 52))) \<le> 2 ^ 53"
    by (simp only: round_even_of_int)
qed

lemma round_double_lower:
  assumes "0 < x"
  shows "2 powi (ilog2 x) \<le> round_double x"
proof -
  have "(2::real) powi (ilog2 x) = 2 ^ 52 * 2 powi (ilog2 x - 52)"
    by (simp add: power_int_diff)
  also have "\<dots> \<le> of_int (round_even (x * 2 powi (- (ilog2 x - 52)))) * 2 powi (ilog2 x - 52)"
  proof (rule mult_right_mono)
    have "of_int (2 ^ 52) \<le> (of_int (round_even (x * 2 powi (- (ilog2 x - 52)))) :: real)"
      using significand_bounds(1) [OF assms] by (simp only: of_int_le_iff)
    then show "(2::real) ^ 52 \<le> of_int (round_even (x * 2 powi (- (ilog2 x - 52))))"
      by simp
    show "(0::real) \<le> 2 powi (ilog2 x - 52)" by simp
  qed
  finally show ?thesis by (simp only: round_double_pos_eq [OF assms])
qed

lemma round_double_upper:
  assumes "0 < x"
  shows "round_double x \<le> 2 powi (ilog2 x + 1)"
proof -
  have "of_int (round_even (x * 2 powi (- (ilog2 x - 52)))) * 2 powi (ilog2 x - 52)
      \<le> 2 ^ 53 * (2::real) powi (ilog2 x - 52)"
  proof (rule mult_right_mono)
    have "(of_int (round_even (x * 2 powi (- (ilog2 x - 52)))) :: real) \<le> of_int (2 ^ 53)"
      using significand_bounds(2) [OF assms] by (simp only: of_int_le_iff)
    then show "of_int (round_even (x * 2 powi (- (ilog2 x - 52)))) \<le> (2::real) ^ 53"
      by simp
    show "(0::real) \<le> 2 powi (ilog2 x - 52)" by simp
  qed
  also have "\<dots> = 2 powi (ilog2 x + 1)"
    by (simp add: power_int_diff power_int_add)
  finally show ?thesis by (simp only: round_double_pos_eq [OF assms])
qed

lemma round_double_pos: "0 < x \<Longrightarrow> 0 < round_double x"
  using round_double_lower [of x] zero_less_power_int [of "2::real" "ilog2 x"]
  by linarith

lemma round_double_nonneg: "0 \<le> x \<Longrightarrow> 0 \<le> round_double x"
  using round_double_pos [of x] by (cases "x = 0") (simp_all add: round_double_def)

lemma ilog2_mono:
  assumes "0 < x" and "x \<le> y"
  shows "ilog2 x \<le> ilog2 y"
proof (rule ccontr)
  assume "\<not> ilog2 x \<le> ilog2 y"
  then have "ilog2 y + 1 \<le> ilog2 x" by simp
  then have "(2::real) powi (ilog2 y + 1) \<le> 2 powi (ilog2 x)"
    by (intro power_int_increasing) simp_all
  moreover have "y < 2 powi (ilog2 y + 1)" using assms by (intro ilog2_bounds(2)) simp
  moreover have "2 powi (ilog2 x) \<le> x" using assms by (intro ilog2_bounds(1))
  ultimately show False using assms by linarith
qed

lemma round_double_mono:
  assumes "0 \<le> x" and "x \<le> y"
  shows "round_double x \<le> round_double y"
proof (cases "x = 0")
  case True
  then show ?thesis using assms round_double_nonneg [of y] by (simp add: round_double_def)
next
  case False
  with assms have x: "0 < x" and y: "0 < y" by simp_all
  show ?thesis
  proof (cases "ilog2 x = ilog2 y")
    case True
    have "x * 2 powi (- (ilog2 y - 52)) \<le> y * 2 powi (- (ilog2 y - 52))"
      using assms by (intro mult_right_mono) simp_all
    then have "round_even (x * 2 powi (- (ilog2 y - 52))) \<le> round_even (y * 2 powi (- (ilog2 y - 52)))"
      by (rule round_even_mono)
    then have "(of_int (round_even (x * 2 powi (- (ilog2 y - 52)))) :: real)
        \<le> of_int (round_even (y * 2 powi (- (ilog2 y - 52))))"
      by (simp only: of_int_le_iff)
    then have "of_int (round_even (x * 2 powi (- (ilog2 y - 52)))) * 2 powi (ilog2 y - 52)
        \<le> of_int (round_even (y * 2 powi (- (ilog2 y - 52)))) * (2::real) powi (ilog2 y - 52)"
      by (intro mult_right_mono) simp_all
    then show ?thesis
      by (simp only: round_double_pos_eq [OF x] round_double_pos_eq [OF y] True)
  next
    case False
    with ilog2_mono [OF x assms(2)] have "ilog2 x + 1 \<le> ilog2 y" by simp
    then have "(2::real) powi (ilog2 x + 1) \<le> 2 powi (ilog2 y)"
      by (intro power_int_increasing) simp_all
    with round_double_upper [OF x] round_double_lower [OF y] show ?thesis by linarith
  qed
qed

lemma round_double_rel_upper:
  assumes "0 < x"
  shows "round_double x \<le> x * (1 + 1 / 2 ^ 53)"
proof -
  define e where "e = ilog2 x - 52"
  have pe: "(0::real) < 2 powi e" by (simp add: zero_less_power_int)
  have "of_int (round_even (x * 2 powi (- e))) \<le> x * 2 powi (- e) + 1 / 2"
    by (rule round_even_le)
  then have "of_int (round_even (x * 2 powi (- e))) * 2 powi e
      \<le> (x * 2 powi (- e) + 1 / 2) * 2 powi e"
    using pe by (intro mult_right_mono) simp_all
  also have "\<dots> = x + 2 powi e / 2"
    by (simp add: power_int_minus field_simps)
  also have "\<dots> \<le> x + x / 2 ^ 52 / 2"
  proof -
    have "(2::real) powi e = 2 powi (ilog2 x) / 2 ^ 52"
      by (simp add: e_def power_int_diff)
    also have "\<dots> \<le> x / 2 ^ 52"
      using ilog2_bounds(1) [OF assms] by (intro divide_right_mono) simp_all
    finally show ?thesis by simp
  qed
  also have "\<dots> = x * (1 + 1 / 2 ^ 53)" by (simp add: field_simps)
  finally show ?thesis by (simp only: round_double_pos_eq [OF assms] e_def)
qed

lemma round_double_rel_lower:
  assumes "0 < x"
  shows "x * (1 - 1 / 2 ^ 53) \<le> round_double x"
proof -
  define e where "e = ilog2 x - 52"
  have pe: "(0::real) < 2 powi e" by (simp add: zero_less_power_int)
  have "x * (1 - 1 / 2 ^ 53) = x - x / 2 ^ 52 / 2" by (simp add: field_simps)
  also have "\<dots> \<le> x - 2 powi e / 2"
  proof -
    have "(2::real) powi e = 2 powi (ilog2 x) / 2 ^ 52"
      by (simp add: e_def power_int_diff)
    also have "\<dots> \<le> x / 2 ^ 52"
      using ilog2_bounds(1) [OF assms] by (intro divide_right_mono) simp_all
    finally show ?thesis by simp
  qed
  also have "\<dots> = (x * 2 powi (- e) - 1 / 2) * 2 powi e"
    by (simp add: power_int_minus field_simps)
  also have "\<dots> \<le> of_int (round_even (x * 2 powi (- e))) * 2 powi e"
    using pe by (intro mult_right_mono round_even_ge) simp_all
  finally show ?thesis by (simp only: round_double_pos_eq [OF assms] e_def)
qed

lemma round_double_rel:
  assumes "0 \<le> x"
  shows "x * (1 - 1 / 2 ^ 53) \<le> round_double x" and "round_double x \<le> x * (1 + 1 / 2 ^ 53)"
proof -
  have "x * (1 - 1 / 2 ^ 53) \<le> round_double x \<and> round_double x \<le> x * (1 + 1 / 2 ^ 53)"
  proof (cases "x = 0")
    case True
    then show ?thesis by (simp add: round_double_def)
  next
    case False
    with assms have "0 < x" by simp
    then show ?thesis by (intro conjI round_double_rel_lower round_double_rel_upper)
  qed
  then show "x * (1 - 1 / 2 ^ 53) \<le> round_double x" and "round_double x \<le> x * (1 + 1 / 2 ^ 53)"
    by simp_all
qed

lemma round_double_of_nat:
  assumes "n \<le> 2 ^ 53"
  shows "round_double (real n) = real n"
proof (cases "n = 0")
  case True
  then show ?thesis by (simp add: round_double_def)
next
  case False
  then have x: "0 < real n" by simp
  define e where "e = ilog2 (real n) - 52"
  show ?thesis
  proof (cases "n = 2 ^ 53")
    case True
    have "round_double 9007199254740992 = 9007199254740992" by code_simp
    with True show ?thesis by simp
  next
    case False
    with assms have "real n < 2 ^ 53" by (metis le_neq_implies_less of_nat_less_numeral_power_cancel_iff)
    have "e \<le> 0"
    proof (rule ccontr)
      assume "\<not> e \<le> 0"
      then have "53 \<le> ilog2 (real n)" by (simp add: e_def)
      then have "(2::real) powi 53 \<le> 2 powi (ilog2 (real n))"
        by (intro power_int_increasing) simp_all
      with ilog2_bounds(1) [OF x] \<open>real n < 2 ^ 53\<close> show False by simp
    qed
    then have "(2::real) powi (- e) = of_int (2 ^ nat (- e))"
      by (simp add: power_int_def)
    then have "real n * 2 powi (- e) = of_int (int n * 2 ^ nat (- e))"
      by simp
    then have "round_even (real n * 2 powi (- e)) = int n * 2 ^ nat (- e)"
      by (simp only: round_even_of_int)
    then have "round_double (real n) = of_int (int n * 2 ^ nat (- e)) * 2 powi e"
      by (simp only: round_double_pos_eq [OF x] e_def)
    also have "\<dots> = real n * (2 powi (- e) * 2 powi e)"
      using \<open>e \<le> 0\<close> by (simp add: power_int_def)
    also have "\<dots> = real n"
      by (simp add: power_int_minus)
    finally show ?thesis .
  qed
qed


text \<open>
  Rounding commutes with a change of binary exponent, so a multiple of four that is at
  most \<open>2 ^ 55\<close> is a binary64 value as well.
\<close>

lemma ilog2_unique:
  assumes "0 < x" and "2 powi e \<le> x" and "x < 2 powi (e + 1)"
  shows "ilog2 x = e"
proof (rule ccontr)
  assume ne: "ilog2 x \<noteq> e"
  show False
  proof (cases "ilog2 x < e")
    case True
    then have "ilog2 x + 1 \<le> e" by simp
    then have "(2::real) powi (ilog2 x + 1) \<le> 2 powi e"
      by (intro power_int_increasing) simp_all
    with ilog2_bounds(2) [OF assms(1)] assms(2) show False by linarith
  next
    case False
    with ne have "e + 1 \<le> ilog2 x" by simp
    then have "(2::real) powi (e + 1) \<le> 2 powi (ilog2 x)"
      by (intro power_int_increasing) simp_all
    with ilog2_bounds(1) [OF assms(1)] assms(3) show False by linarith
  qed
qed

lemma round_double_scale:
  assumes "0 < x"
  shows "round_double (x * 2 powi k) = round_double x * 2 powi k"
proof -
  have pk: "(0::real) < 2 powi k" by (simp add: zero_less_power_int)
  have y: "0 < x * 2 powi k" using assms pk by simp
  have "(2::real) powi (ilog2 x + k) = 2 powi (ilog2 x) * 2 powi k"
    by (simp add: power_int_add)
  moreover have "2 powi (ilog2 x) * 2 powi k \<le> x * 2 powi k"
    using ilog2_bounds(1) [OF assms] pk by (intro mult_right_mono) simp_all
  ultimately have lo: "2 powi (ilog2 x + k) \<le> x * 2 powi k" by simp
  have ex'': "ilog2 x + k + 1 = ilog2 x + 1 + k" by simp
  have "(2::real) powi (ilog2 x + k + 1) = 2 powi (ilog2 x + 1) * 2 powi k"
    unfolding ex'' by (rule power_int_add) simp
  moreover have "x * 2 powi k < 2 powi (ilog2 x + 1) * 2 powi k"
    using ilog2_bounds(2) [OF assms] pk by (intro mult_strict_right_mono) simp_all
  ultimately have hi: "x * 2 powi k < 2 powi (ilog2 x + k + 1)" by simp
  have e: "ilog2 (x * 2 powi k) = ilog2 x + k"
    using y lo hi by (rule ilog2_unique)
  have ex: "- (ilog2 x + k - 52) = - (ilog2 x - 52) + - k" by simp
  have "(2::real) powi (- (ilog2 x + k - 52)) = 2 powi (- (ilog2 x - 52)) * 2 powi (- k)"
    unfolding ex by (rule power_int_add) simp
  then have "x * 2 powi k * 2 powi (- (ilog2 x + k - 52)) =
      x * 2 powi (- (ilog2 x - 52)) * (2 powi k * 2 powi (- k))"
    by (simp only: ac_simps)
  also have "(2::real) powi k * 2 powi (- k) = 1"
    by (simp add: power_int_minus)
  finally have m: "x * 2 powi k * 2 powi (- (ilog2 x + k - 52)) = x * 2 powi (- (ilog2 x - 52))"
    by simp
  have ex': "ilog2 x + k - 52 = ilog2 x - 52 + k" by simp
  have s: "(2::real) powi (ilog2 x + k - 52) = 2 powi (ilog2 x - 52) * 2 powi k"
    unfolding ex' by (rule power_int_add) simp
  have "round_double (x * 2 powi k) =
      of_int (round_even (x * 2 powi k * 2 powi (- (ilog2 x + k - 52)))) * 2 powi (ilog2 x + k - 52)"
    by (simp only: round_double_pos_eq [OF y] e)
  also have "\<dots> = of_int (round_even (x * 2 powi (- (ilog2 x - 52)))) * (2 powi (ilog2 x - 52) * 2 powi k)"
    by (simp only: m s)
  also have "\<dots> = round_double x * 2 powi k"
    by (simp only: round_double_pos_eq [OF assms] mult.assoc)
  finally show ?thesis .
qed

lemma round_double_of_nat_4:
  assumes "n \<le> 2 ^ 53"
  shows "round_double (real (4 * n)) = real (4 * n)"
proof (cases "n = 0")
  case True
  then show ?thesis by (simp add: round_double_def)
next
  case False
  then have "0 < real n" by simp
  from round_double_scale [OF this, of 2]
  have "round_double (real n * 4) = round_double (real n) * 4" by simp
  then show ?thesis
    by (simp add: round_double_of_nat [OF assms] mult.commute)
qed


section \<open>Conversions and the quotient of a percentage\<close>

lemma ull_to_double_nonneg: "0 \<le> ull_to_double n"
  unfolding ull_to_double_def by (rule round_double_nonneg) (rule of_nat_0_le_iff)

lemma ull_to_double_pos:
  assumes "n \<noteq> 0"
  shows "0 < ull_to_double n"
proof -
  have "0 < unat n" using assms by (simp add: unat_gt_0)
  then have "0 < real (unat n)" by (simp only: of_nat_0_less_iff)
  then show ?thesis unfolding ull_to_double_def by (rule round_double_pos)
qed

lemma ull_to_double_exact: "unat n \<le> 2 ^ 53 \<Longrightarrow> ull_to_double n = real (unat n)"
  unfolding ull_to_double_def by (rule round_double_of_nat)

lemma ull_to_double_mono:
  assumes "m \<le> n"
  shows "ull_to_double m \<le> ull_to_double n"
proof -
  have "unat m \<le> unat n" using assms by (simp add: word_le_nat_alt)
  then have "real (unat m) \<le> real (unat n)" by (simp only: of_nat_le_iff)
  then show ?thesis
    unfolding ull_to_double_def by (intro round_double_mono of_nat_0_le_iff)
qed

text \<open>The quotient of lines 80 and 148, for a numerator count \<open>m\<close> and a divisor count \<open>n\<close>.\<close>

lemma percent_nonneg: "0 \<le> fdiv (fmul 100 (ull_to_double m)) (ull_to_double n)"
  by (simp add: fdiv_def fmul_def round_double_nonneg ull_to_double_nonneg)

lemma percent_nonneg': "0 \<le> fdiv (fmul (ull_to_double m) 100) (ull_to_double n)"
  by (simp add: fdiv_def fmul_def round_double_nonneg ull_to_double_nonneg)

lemma percent_exact:
  assumes "100 * unat m \<le> 2 ^ 53" and "unat n \<le> 2 ^ 53"
  shows "fdiv (fmul 100 (ull_to_double m)) (ull_to_double n) =
    round_double (100 * real (unat m) / real (unat n))"
proof -
  from assms(1) have m: "unat m \<le> 2 ^ 53" by simp
  have "fmul 100 (ull_to_double m) = round_double (real (100 * unat m))"
    by (simp add: fmul_def ull_to_double_exact [OF m])
  also have "\<dots> = real (100 * unat m)"
    using assms(1) by (rule round_double_of_nat)
  finally show ?thesis
    by (simp add: fdiv_def ull_to_double_exact [OF assms(2)])
qed

lemma product_exact:
  assumes "100 * unat m \<le> 2 ^ 55"
  shows "fmul 100 (ull_to_double m) = 100 * ull_to_double m"
proof -
  from assms have m: "unat m \<le> 2 ^ 53" and q: "25 * unat m \<le> 2 ^ 53" by simp_all
  have "fmul 100 (ull_to_double m) = round_double (real (4 * (25 * unat m)))"
    by (simp add: fmul_def ull_to_double_exact [OF m])
  also have "\<dots> = real (4 * (25 * unat m))"
    using q by (rule round_double_of_nat_4)
  finally show ?thesis
    by (simp add: ull_to_double_exact [OF m])
qed

lemma percent_le_100_exact:
  assumes "m \<le> n" and "n \<noteq> 0" and p: "fmul 100 (ull_to_double m) = 100 * ull_to_double m"
  shows "fdiv (fmul 100 (ull_to_double m)) (ull_to_double n) \<le> 100"
proof -
  have b: "0 < ull_to_double n" using assms(2) by (rule ull_to_double_pos)
  have "ull_to_double m \<le> ull_to_double n" using assms(1) by (rule ull_to_double_mono)
  then have "100 * ull_to_double m / ull_to_double n \<le> 100"
    using b by (simp add: divide_le_eq)
  moreover have "0 \<le> 100 * ull_to_double m / ull_to_double n"
    using b ull_to_double_nonneg [of m] by simp
  ultimately have "round_double (100 * ull_to_double m / ull_to_double n) \<le> round_double 100"
    by (rule round_double_mono [rotated])
  moreover have "round_double 100 = 100" by code_simp
  ultimately show ?thesis by (simp add: fdiv_def p)
qed

lemma percent_le_ulp:
  assumes "m \<le> n" and "n \<noteq> 0"
  shows "fdiv (fmul 100 (ull_to_double m)) (ull_to_double n) \<le> 100 + 1 / 2 ^ 46"
proof -
  define a where "a = ull_to_double m"
  define b where "b = ull_to_double n"
  have b: "0 < b" unfolding b_def using assms(2) by (rule ull_to_double_pos)
  have a: "0 \<le> a" unfolding a_def by (rule ull_to_double_nonneg)
  have ab: "a \<le> b" unfolding a_def b_def using assms(1) by (rule ull_to_double_mono)
  have p: "round_double (100 * a) \<le> 100 * a * (1 + 1 / 2 ^ 53)"
  proof (cases "a = 0")
    case True
    then show ?thesis by (simp add: round_double_def)
  next
    case False
    with a have "0 < 100 * a" by simp
    then show ?thesis by (rule round_double_rel_upper)
  qed
  have "round_double (100 * a) / b \<le> 100 * a * (1 + 1 / 2 ^ 53) / b"
    using p b by (intro divide_right_mono) simp_all
  also have "\<dots> = (a / b) * (100 * (1 + 1 / 2 ^ 53))" by simp
  also have "\<dots> \<le> 1 * (100 * (1 + 1 / 2 ^ 53))"
    using ab b by (intro mult_right_mono) simp_all
  also have "\<dots> \<le> 100 + 1 / 2 ^ 46" by simp
  finally have q: "round_double (100 * a) / b \<le> 100 + 1 / 2 ^ 46" .
  have "0 \<le> round_double (100 * a) / b"
    using a b by (simp add: round_double_nonneg)
  then have "round_double (round_double (100 * a) / b) \<le> round_double (100 + 1 / 2 ^ 46)"
    using q by (rule round_double_mono)
  moreover have "round_double (100 + 1 / 2 ^ 46) = 100 + 1 / 2 ^ 46" by code_simp
  ultimately show ?thesis by (simp add: fdiv_def fmul_def a_def b_def)
qed


text \<open>
  Four roundings separate the quotient from the real number it stands for: each is within
  \<open>2 ^ -53\<close> of its argument, relatively, and together they stay within \<open>2 ^ -50\<close>.
\<close>

lemma percent_accuracy:
  assumes "n \<noteq> 0"
  shows "\<bar>fdiv (fmul 100 (ull_to_double m)) (ull_to_double n) - 100 * real (unat m) / real (unat n)\<bar>
    \<le> (100 * real (unat m) / real (unat n)) / 2 ^ 50"
proof -
  define N where "N = real (unat m)"
  define D where "D = real (unat n)"
  define d :: real where "d = 1 / 2 ^ 53"
  define a where "a = round_double N"
  define b where "b = round_double D"
  define p where "p = round_double (100 * a)"
  define q where "q = p / b"
  have N: "0 \<le> N" unfolding N_def by (rule of_nat_0_le_iff)
  have "0 < unat n" using assms by (simp add: unat_gt_0)
  then have D: "0 < D" by (simp only: D_def of_nat_0_less_iff)
  have d: "0 < d" "d < 1" by (simp_all add: d_def)
  have a0: "0 \<le> a" unfolding a_def using N by (rule round_double_nonneg)
  have b0: "0 < b" unfolding b_def using D by (rule round_double_pos)
  have p0: "0 \<le> p" unfolding p_def using a0 by (intro round_double_nonneg) simp
  have q0: "0 \<le> q" unfolding q_def using p0 b0 by simp
  have a_lo: "N * (1 - d) \<le> a" and a_hi: "a \<le> N * (1 + d)"
    unfolding a_def d_def using N by (rule round_double_rel)+
  have b_lo: "D * (1 - d) \<le> b" and b_hi: "b \<le> D * (1 + d)"
    unfolding b_def d_def using D by (intro round_double_rel; simp)+
  have p_lo: "100 * a * (1 - d) \<le> p" and p_hi: "p \<le> 100 * a * (1 + d)"
    unfolding p_def d_def using a0 by (intro round_double_rel; simp)+
  have r_lo: "q * (1 - d) \<le> round_double q" and r_hi: "round_double q \<le> q * (1 + d)"
    unfolding d_def using q0 by (rule round_double_rel)+
  have r: "fdiv (fmul 100 (ull_to_double m)) (ull_to_double n) = round_double q"
    by (simp only: fdiv_def fmul_def ull_to_double_def q_def p_def a_def b_def N_def D_def)
  define E where "E = 100 * N / D"
  have E0: "0 \<le> E" using N D by (simp add: E_def)
  \<comment> \<open>upper bound\<close>
  have "100 * a * (1 + d) \<le> 100 * (N * (1 + d)) * (1 + d)"
    using a_hi d by (intro mult_right_mono mult_left_mono) simp_all
  with p_hi have "p \<le> 100 * (N * (1 + d)) * (1 + d)" by linarith
  then have p_hi': "p \<le> 100 * N * (1 + d) ^ 2" by (simp add: power2_eq_square algebra_simps)
  have bpos: "0 < D * (1 - d)" using D d by simp
  have "q \<le> (100 * N * (1 + d) ^ 2) / (D * (1 - d))"
    unfolding q_def using p_hi' b_lo bpos p0 by (intro frac_le) simp_all
  then have "q * (1 + d) \<le> (100 * N * (1 + d) ^ 2) / (D * (1 - d)) * (1 + d)"
    using d by (intro mult_right_mono) simp_all
  also have "\<dots> = E * ((1 + d) ^ 3 / (1 - d))"
    by (simp add: E_def power3_eq_cube power2_eq_square)
  also have "\<dots> \<le> E * (1 + 1 / 2 ^ 50)"
    using E0 by (intro mult_left_mono) (simp_all add: d_def power_divide)
  also have "\<dots> = E + E / 2 ^ 50" by (simp add: algebra_simps)
  finally have "q * (1 + d) \<le> E + E / 2 ^ 50" .
  with r_hi have upper: "round_double q \<le> E + E / 2 ^ 50" by linarith
  \<comment> \<open>lower bound\<close>
  have "100 * (N * (1 - d)) * (1 - d) \<le> 100 * a * (1 - d)"
    using a_lo d by (intro mult_right_mono mult_left_mono) simp_all
  with p_lo have "100 * (N * (1 - d)) * (1 - d) \<le> p" by linarith
  then have p_lo': "100 * N * (1 - d) ^ 2 \<le> p" by (simp add: power2_eq_square algebra_simps)
  have "(100 * N * (1 - d) ^ 2) / (D * (1 + d)) \<le> q"
    unfolding q_def using p_lo' b_hi b0 p0 by (intro frac_le) simp_all
  then have step: "(100 * N * (1 - d) ^ 2) / (D * (1 + d)) * (1 - d) \<le> q * (1 - d)"
    using d by (intro mult_right_mono) simp_all
  have "E - E / 2 ^ 50 = E * (1 - 1 / 2 ^ 50)" by (simp add: algebra_simps)
  also have "\<dots> \<le> E * ((1 - d) ^ 3 / (1 + d))"
    using E0 by (intro mult_left_mono) (simp_all add: d_def power_divide)
  also have "\<dots> = (100 * N * (1 - d) ^ 2) / (D * (1 + d)) * (1 - d)"
    by (simp add: E_def power3_eq_cube power2_eq_square)
  also note step
  also note r_lo
  finally have lower: "E - E / 2 ^ 50 \<le> round_double q" .
  from upper lower have "\<bar>round_double q - E\<bar> \<le> E / 2 ^ 50" by linarith
  then show ?thesis by (simp only: r E_def N_def D_def)
qed


section \<open>The branches of \<^verbatim>\<open>get_cpu_usage\<close>\<close>

lemma get_cpu_usage_Unopenable: "get_cpu_usage st Unopenable = (- 1, st)"
  by (simp add: get_cpu_usage_def)

lemma get_cpu_usage_first:
  "first_call st \<Longrightarrow> get_cpu_usage st (Opened ok t) =
     (0, st\<lparr>last_total := total_time t, last_idle := idle_time t, first_call := False\<rparr>)"
  by (simp add: get_cpu_usage_def)

lemma get_cpu_usage_later:
  "\<not> first_call st \<Longrightarrow> get_cpu_usage st (Opened ok t) =
     (if total_time t - last_total st = 0 then 0
      else fdiv (fmul 100 (ull_to_double
                  (total_time t - last_total st - (idle_time t - last_idle st))))
                (ull_to_double (total_time t - last_total st)),
      st\<lparr>last_total := total_time t, last_idle := idle_time t\<rparr>)"
  by (simp add: get_cpu_usage_def Let_def)

lemma cpu_usages_Unopenable:
  "cpu_usages st (replicate n Unopenable @ files) = replicate n (- 1) @ cpu_usages st files"
  by (induction n) (simp_all add: get_cpu_usage_Unopenable)

text \<open>
  C4. The first call that reads \<^verbatim>\<open>/proc/stat\<close> returns exactly \<open>0.0\<close>, whatever the
  counters are: the branch of line 61 returns a literal and evaluates no quotient. It
  stores the total and idle sums of that sample, and every later call of the sequence
  starts from them.
\<close>

theorem first_call_bootstrap:
  "get_cpu_usage cpu_init (Opened ok t) =
     (0, \<lparr>first_call = False, last_total = total_time t, last_idle = idle_time t\<rparr>)
   \<and> cpu_usages cpu_init (Opened ok t # files) =
       0 # cpu_usages \<lparr>first_call = False, last_total = total_time t, last_idle = idle_time t\<rparr> files"
  by (simp add: get_cpu_usage_first cpu_init_def)

text \<open>
  C5. On a call that is not the first, a total delta of zero gives exactly \<open>0.0\<close>, and
  the stored previous sums are overwritten with the current ones whether the delta is
  zero or not.
\<close>

theorem zero_delta_usage:
  "\<not> first_call st \<Longrightarrow>
     (total_time t - last_total st = 0 \<longrightarrow> fst (get_cpu_usage st (Opened ok t)) = 0)
     \<and> snd (get_cpu_usage st (Opened ok t)) =
         st\<lparr>last_total := total_time t, last_idle := idle_time t\<rparr>"
  by (simp add: get_cpu_usage_later)

theorem zero_delta_usage_witness:
  "\<not> first_call \<lparr>first_call = False, last_total = 100, last_idle = 10\<rparr>
   \<and> total_time \<lparr>user = 80, nice = 0, system = 0, idle = 20, iowait = 0, irq = 0,
        softirq = 0, steal = 0\<rparr> - last_total \<lparr>first_call = False, last_total = 100, last_idle = 10\<rparr> = 0
   \<and> get_cpu_usage \<lparr>first_call = False, last_total = 100, last_idle = 10\<rparr>
        (Opened True \<lparr>user = 80, nice = 0, system = 0, idle = 20, iowait = 0, irq = 0,
        softirq = 0, steal = 0\<rparr>)
      = (0, \<lparr>first_call = False, last_total = 100, last_idle = 20\<rparr>)"
  using zero_delta_usage [of "\<lparr>first_call = False, last_total = 100, last_idle = 10\<rparr>"
      "\<lparr>user = 80, nice = 0, system = 0, idle = 20, iowait = 0, irq = 0,
        softirq = 0, steal = 0\<rparr>" True]
  by (simp add: total_time_def idle_time_def non_idle_time_def prod_eq_iff)

text \<open>
  C10. When \<^verbatim>\<open>/proc/stat\<close> cannot be opened the function returns \<open>-1.0\<close> and leaves
  the three statics as they were. So after any number of failed opens from the start of
  the process, the first read that opens the file is still the bootstrap call: it returns
  \<open>0.0\<close> and seeds the state.
\<close>

theorem open_failure_keeps_state:
  "get_cpu_usage st Unopenable = (- 1, st)
   \<and> cpu_usages cpu_init (replicate n Unopenable @ Opened ok t # files) =
       replicate n (- 1) @ 0 #
         cpu_usages \<lparr>first_call = False, last_total = total_time t, last_idle = idle_time t\<rparr> files"
  by (simp add: get_cpu_usage_Unopenable cpu_usages_Unopenable get_cpu_usage_first cpu_init_def)

text \<open>
  C1. On a call that is not the first and has a total delta other than zero, the result is
  the formula \<^verbatim>\<open>100 * (total_delta - idle_delta) / total_delta\<close> evaluated as the source
  writes it: the deltas and their difference in 64-bit unsigned arithmetic, the product
  and the quotient in binary64. When the idle delta does not exceed the total delta, that
  value is within a relative \<open>2 ^ -50\<close> of the real number the formula denotes; when
  moreover the total delta and a hundred times the busy delta are at most \<open>2 ^ 53\<close>, it
  is that real number rounded once to binary64. Two reads with total and idle sums
  \<open>(100, 10)\<close> and then \<open>(200, 30)\<close> give \<open>0.0\<close> and then \<open>80.0\<close>.
\<close>

theorem cpu_usage_formula:
  "(\<not> first_call st \<and> total_time t - last_total st \<noteq> 0 \<longrightarrow>
      fst (get_cpu_usage st (Opened ok t)) =
        fdiv (fmul 100 (ull_to_double
               (total_time t - last_total st - (idle_time t - last_idle st))))
             (ull_to_double (total_time t - last_total st))
      \<and> (idle_time t - last_idle st \<le> total_time t - last_total st \<longrightarrow>
          \<bar>fst (get_cpu_usage st (Opened ok t))
             - spec_usage (total_time t - last_total st) (idle_time t - last_idle st)\<bar>
          \<le> spec_usage (total_time t - last_total st) (idle_time t - last_idle st) / 2 ^ 50)
      \<and> (idle_time t - last_idle st \<le> total_time t - last_total st
          \<and> 100 * (unat (total_time t - last_total st) - unat (idle_time t - last_idle st)) \<le> 2 ^ 53
          \<and> unat (total_time t - last_total st) \<le> 2 ^ 53 \<longrightarrow>
          fst (get_cpu_usage st (Opened ok t)) =
            round_double (spec_usage (total_time t - last_total st) (idle_time t - last_idle st))))
   \<and> (total_time t1 = 100 \<and> idle_time t1 = 10 \<and> total_time t2 = 200 \<and> idle_time t2 = 30 \<longrightarrow>
        cpu_usages cpu_init [Opened ok1 t1, Opened ok2 t2] = [0, 80])"
proof -
  define td where "td = total_time t - last_total st"
  define idl where "idl = idle_time t - last_idle st"
  define r where "r = fst (get_cpu_usage st (Opened ok t))"
  have spec: "spec_usage td idl = 100 * real (unat (td - idl)) / real (unat td)" if "idl \<le> td"
  proof -
    have "unat idl \<le> unat td" using that by (simp add: word_le_nat_alt)
    then have "real (unat td - unat idl) = real (unat td) - real (unat idl)"
      by (rule of_nat_diff)
    then show ?thesis
      by (simp only: spec_usage_def unat_sub [OF that])
  qed
  have later: "r = fdiv (fmul 100 (ull_to_double (td - idl))) (ull_to_double td)
      \<and> (idl \<le> td \<longrightarrow> \<bar>r - spec_usage td idl\<bar> \<le> spec_usage td idl / 2 ^ 50)
      \<and> (idl \<le> td \<and> 100 * (unat td - unat idl) \<le> 2 ^ 53 \<and> unat td \<le> 2 ^ 53 \<longrightarrow>
           r = round_double (spec_usage td idl))"
    if h: "\<not> first_call st \<and> td \<noteq> 0"
  proof (intro conjI impI)
    show code: "r = fdiv (fmul 100 (ull_to_double (td - idl))) (ull_to_double td)"
      using h by (simp add: r_def td_def idl_def get_cpu_usage_later)
    show "\<bar>r - spec_usage td idl\<bar> \<le> spec_usage td idl / 2 ^ 50" if "idl \<le> td"
    proof -
      from h have "td \<noteq> 0" by simp
      from percent_accuracy [OF this, of "td - idl"] show ?thesis
        by (simp only: code spec [OF that])
    qed
    show "r = round_double (spec_usage td idl)"
      if e: "idl \<le> td \<and> 100 * (unat td - unat idl) \<le> 2 ^ 53 \<and> unat td \<le> 2 ^ 53"
    proof -
      from e have le: "idl \<le> td" by simp
      from e have "100 * unat (td - idl) \<le> 2 ^ 53" by (simp only: unat_sub [OF le])
      moreover from e have "unat td \<le> 2 ^ 53" by simp
      ultimately have "fdiv (fmul 100 (ull_to_double (td - idl))) (ull_to_double td) =
          round_double (100 * real (unat (td - idl)) / real (unat td))"
        by (rule percent_exact)
      then show ?thesis by (simp only: code spec [OF le])
    qed
  qed
  have example: "cpu_usages cpu_init [Opened ok1 t1, Opened ok2 t2] = [0, 80]"
    if s: "total_time t1 = 100 \<and> idle_time t1 = 10 \<and> total_time t2 = 200 \<and> idle_time t2 = 30"
  proof -
    have "fdiv (fmul 100 (ull_to_double (200 - 100 - (30 - 10)))) (ull_to_double (200 - 100)) = 80"
      by code_simp
    with s show ?thesis
      by (simp add: get_cpu_usage_first get_cpu_usage_later cpu_init_def)
  qed
  from later example show ?thesis
    unfolding td_def idl_def r_def by blast
qed

theorem cpu_usage_formula_witness:
  "\<not> first_call \<lparr>first_call = False, last_total = 100, last_idle = 10\<rparr>
   \<and> total_time \<lparr>user = 170, nice = 0, system = 0, idle = 30, iowait = 0, irq = 0,
        softirq = 0, steal = 0\<rparr> - last_total \<lparr>first_call = False, last_total = 100, last_idle = 10\<rparr> \<noteq> 0
   \<and> idle_time \<lparr>user = 170, nice = 0, system = 0, idle = 30, iowait = 0, irq = 0,
        softirq = 0, steal = 0\<rparr> - last_idle \<lparr>first_call = False, last_total = 100, last_idle = 10\<rparr>
      \<le> total_time \<lparr>user = 170, nice = 0, system = 0, idle = 30, iowait = 0, irq = 0,
        softirq = 0, steal = 0\<rparr> - last_total \<lparr>first_call = False, last_total = 100, last_idle = 10\<rparr>
   \<and> spec_usage 100 20 = 80
   \<and> fst (get_cpu_usage \<lparr>first_call = False, last_total = 100, last_idle = 10\<rparr>
        (Opened True \<lparr>user = 170, nice = 0, system = 0, idle = 30, iowait = 0, irq = 0,
        softirq = 0, steal = 0\<rparr>)) = 80
   \<and> cpu_usages cpu_init
        [Opened True \<lparr>user = 90, nice = 0, system = 0, idle = 10, iowait = 0, irq = 0,
           softirq = 0, steal = 0\<rparr>,
         Opened True \<lparr>user = 170, nice = 0, system = 0, idle = 30, iowait = 0, irq = 0,
           softirq = 0, steal = 0\<rparr>] = [0, 80]"
proof -
  define st where "st = \<lparr>first_call = False, last_total = 100, last_idle = 10\<rparr>"
  define t1 where "t1 = \<lparr>user = 90, nice = 0, system = 0, idle = 10, iowait = 0, irq = 0,
        softirq = 0, steal = (0::ull)\<rparr>"
  define t2 where "t2 = \<lparr>user = 170, nice = 0, system = 0, idle = 30, iowait = 0, irq = 0,
        softirq = 0, steal = (0::ull)\<rparr>"
  have s1: "total_time t1 = 100 \<and> idle_time t1 = 10"
    by (simp add: t1_def total_time_def idle_time_def non_idle_time_def)
  have s2: "total_time t2 = 200 \<and> idle_time t2 = 30"
    by (simp add: t2_def total_time_def idle_time_def non_idle_time_def)
  have td: "total_time t2 - last_total st = 100" and idl: "idle_time t2 - last_idle st = 20"
    by (simp_all add: st_def s2)
  have h1: "\<not> first_call st" by (simp add: st_def)
  have h2: "total_time t2 - last_total st \<noteq> 0" by (simp add: td)
  have h3: "idle_time t2 - last_idle st \<le> total_time t2 - last_total st" by (simp add: td idl)
  have h4: "100 * (unat (total_time t2 - last_total st) - unat (idle_time t2 - last_idle st))
      \<le> (2 :: nat) ^ 53"
    by (simp add: td idl)
  have h5: "unat (total_time t2 - last_total st) \<le> 2 ^ 53" by (simp add: td)
  have v: "spec_usage 100 20 = 80" by (simp add: spec_usage_def)
  have rd: "round_double 80 = 80" by code_simp
  from cpu_usage_formula [of st t2 True t1 t2 True True] h1 h2 h3 h4 h5 s1 s2
  have "fst (get_cpu_usage st (Opened True t2)) =
      round_double (spec_usage (total_time t2 - last_total st) (idle_time t2 - last_idle st))
    \<and> cpu_usages cpu_init [Opened True t1, Opened True t2] = [0, 80]"
    by blast
  then have "fst (get_cpu_usage st (Opened True t2)) = 80
    \<and> cpu_usages cpu_init [Opened True t1, Opened True t2] = [0, 80]"
    by (simp only: td idl v rd)
  with h1 h2 h3 h4 h5 v show ?thesis
    unfolding st_def t1_def t2_def by (intro conjI) simp_all
qed

text \<open>
  Where the quotient of line 80 stays in range. On a call that is not the first, with a
  total delta other than zero and an idle delta that does not exceed it, the usage is at
  least \<open>0\<close> and at most \<open>100 + 2 ^ -46\<close>, the binary64 value that follows \<open>100\<close>. It
  is at most \<open>100\<close> whenever the product \<^verbatim>\<open>100.0 * (total_delta - idle_delta)\<close> is
  exact, which it is whenever a hundred times the busy delta is at most \<open>2 ^ 55\<close>.
\<close>

lemma usage_range_exact_product:
  assumes "\<not> first_call st"
    and "total_time t - last_total st \<noteq> 0"
    and "idle_time t - last_idle st \<le> total_time t - last_total st"
  shows "0 \<le> fst (get_cpu_usage st (Opened ok t))
    \<and> fst (get_cpu_usage st (Opened ok t)) \<le> 100 + 1 / 2 ^ 46
    \<and> (fmul 100 (ull_to_double (total_time t - last_total st - (idle_time t - last_idle st))) =
         100 * ull_to_double (total_time t - last_total st - (idle_time t - last_idle st))
        \<longrightarrow> fst (get_cpu_usage st (Opened ok t)) \<le> 100)
    \<and> (100 * (unat (total_time t - last_total st) - unat (idle_time t - last_idle st)) \<le> 2 ^ 55
        \<longrightarrow> fst (get_cpu_usage st (Opened ok t)) \<le> 100)"
proof -
  define td where "td = total_time t - last_total st"
  define idl where "idl = idle_time t - last_idle st"
  have le: "idl \<le> td" and nz: "td \<noteq> 0"
    using assms by (simp_all add: td_def idl_def)
  have sub: "unat (td - idl) = unat td - unat idl"
    using le by (rule unat_sub)
  have diff_le: "td - idl \<le> td"
    using le by (simp add: word_le_nat_alt sub)
  have r: "fst (get_cpu_usage st (Opened ok t)) =
      fdiv (fmul 100 (ull_to_double (td - idl))) (ull_to_double td)"
    using assms(1,2) by (simp add: get_cpu_usage_later td_def idl_def)
  have "0 \<le> fdiv (fmul 100 (ull_to_double (td - idl))) (ull_to_double td)"
    by (rule percent_nonneg)
  moreover have "fdiv (fmul 100 (ull_to_double (td - idl))) (ull_to_double td) \<le> 100 + 1 / 2 ^ 46"
    using diff_le nz by (rule percent_le_ulp)
  moreover have "fdiv (fmul 100 (ull_to_double (td - idl))) (ull_to_double td) \<le> 100"
    if "fmul 100 (ull_to_double (td - idl)) = 100 * ull_to_double (td - idl)"
    using diff_le nz that by (rule percent_le_100_exact)
  moreover have "fdiv (fmul 100 (ull_to_double (td - idl))) (ull_to_double td) \<le> 100"
    if "100 * (unat td - unat idl) \<le> 2 ^ 55"
  proof -
    from that have "100 * unat (td - idl) \<le> 2 ^ 55" by (simp only: sub)
    then have "fmul 100 (ull_to_double (td - idl)) = 100 * ull_to_double (td - idl)"
      by (rule product_exact)
    with diff_le nz show ?thesis by (rule percent_le_100_exact)
  qed
  ultimately show ?thesis
    unfolding r td_def [symmetric] idl_def [symmetric] by blast
qed

text \<open>
  C6, at an input the code mishandles. The first read finds all counters \<open>0\<close>, the
  second finds \<open>user = 360287970189643\<close> and the others \<open>0\<close>: the call is not the
  first, the total delta is positive and the idle delta, \<open>0\<close>, does not exceed it. The
  product \<open>100.0 * 360287970189643\<close> lies halfway between two binary64 values and is
  rounded up to \<open>36028797018964304\<close>; the quotient is \<open>100 + 2 ^ -46\<close>, above the
  \<open>100.0\<close> that the comment on line 39 gives as the upper end of the result.
\<close>

theorem usage_exceeds_100:
  "cpu_usages cpu_init
     [Opened True \<lparr>user = 0, nice = 0, system = 0, idle = 0, iowait = 0,
        irq = 0, softirq = 0, steal = 0\<rparr>,
      Opened True \<lparr>user = 360287970189643, nice = 0, system = 0, idle = 0, iowait = 0,
        irq = 0, softirq = 0, steal = 0\<rparr>] = [0, 100 + 1 / 2 ^ 46]
   \<and> snd (get_cpu_usage cpu_init (Opened True \<lparr>user = 0, nice = 0, system = 0, idle = 0,
        iowait = 0, irq = 0, softirq = 0, steal = 0\<rparr>))
      = \<lparr>first_call = False, last_total = 0, last_idle = 0\<rparr>
   \<and> total_time \<lparr>user = 360287970189643, nice = 0, system = 0, idle = 0, iowait = 0,
        irq = 0, softirq = 0, steal = 0\<rparr>
       - last_total \<lparr>first_call = False, last_total = 0, last_idle = 0\<rparr> \<noteq> 0
   \<and> idle_time \<lparr>user = 360287970189643, nice = 0, system = 0, idle = 0, iowait = 0,
        irq = 0, softirq = 0, steal = 0\<rparr>
       - last_idle \<lparr>first_call = False, last_total = 0, last_idle = 0\<rparr>
     \<le> total_time \<lparr>user = 360287970189643, nice = 0, system = 0, idle = 0, iowait = 0,
        irq = 0, softirq = 0, steal = 0\<rparr>
       - last_total \<lparr>first_call = False, last_total = 0, last_idle = 0\<rparr>
   \<and> fst (get_cpu_usage \<lparr>first_call = False, last_total = 0, last_idle = 0\<rparr>
        (Opened True \<lparr>user = 360287970189643, nice = 0, system = 0, idle = 0, iowait = 0,
           irq = 0, softirq = 0, steal = 0\<rparr>)) = 100 + 1 / 2 ^ 46
   \<and> (100 :: real) < 100 + 1 / 2 ^ 46"
proof -
  define st where "st = \<lparr>first_call = False, last_total = 0, last_idle = 0\<rparr>"
  define z where "z = \<lparr>user = 0, nice = 0, system = 0, idle = 0, iowait = 0,
        irq = 0, softirq = 0, steal = (0::ull)\<rparr>"
  define t where "t = \<lparr>user = 360287970189643, nice = 0, system = 0, idle = 0, iowait = 0,
        irq = 0, softirq = 0, steal = (0::ull)\<rparr>"
  have h: "\<not> first_call st" by (simp add: st_def)
  have td: "total_time t - last_total st = 360287970189643"
    by (simp add: st_def t_def total_time_def idle_time_def non_idle_time_def)
  have idl: "idle_time t - last_idle st = 0"
    by (simp add: st_def t_def idle_time_def)
  have nz: "(360287970189643 :: ull) \<noteq> 0" by simp
  have le: "(0 :: ull) \<le> 360287970189643" by simp
  have "fst (get_cpu_usage st (Opened True t)) =
      fdiv (fmul 100 (ull_to_double 360287970189643)) (ull_to_double 360287970189643)"
    unfolding get_cpu_usage_later [OF h] td idl using nz by simp
  also have "\<dots> = round_double (round_double (100 * round_double 360287970189643)
      / round_double 360287970189643)"
    by (simp add: fdiv_def fmul_def ull_to_double_def)
  also have "\<dots> = 100 + 1 / 2 ^ 46"
    by code_simp
  finally have r: "fst (get_cpu_usage st (Opened True t)) = 100 + 1 / 2 ^ 46" .
  have first: "get_cpu_usage cpu_init (Opened True z) = (0, st)"
    by (simp add: get_cpu_usage_first cpu_init_def st_def z_def total_time_def idle_time_def
        non_idle_time_def)
  obtain st' where second: "get_cpu_usage st (Opened True t) = (100 + 1 / 2 ^ 46, st')"
    using r by (cases "get_cpu_usage st (Opened True t)") simp
  have run: "cpu_usages cpu_init [Opened True z, Opened True t] = [0, 100 + 1 / 2 ^ 46]"
    by (simp only: cpu_usages.simps first second Let_def prod.case)
  have s: "snd (get_cpu_usage cpu_init (Opened True z)) = st" by (simp add: first)
  have gt: "(100 :: real) < 100 + 1 / 2 ^ 46" by simp
  from run s td idl nz le r gt show ?thesis
    unfolding st_def z_def t_def by (intro conjI) simp_all
qed

text \<open>
  C9, at an input the code mishandles. When \<^verbatim>\<open>/proc/stat\<close> opens but the extraction of
  line 53 fails, the function does not return \<open>-1.0\<close>: whatever the variables then hold,
  the result is \<open>0.0\<close> on the first call and a quotient that is at least \<open>0\<close> on later
  ones. With all eight variables \<open>0\<close> on the first call it returns \<open>0.0\<close> and clears
  the first-call flag.
\<close>

theorem unparsed_stat_not_reported:
  "fst (get_cpu_usage st (Opened False t)) \<noteq> - 1
   \<and> get_cpu_usage cpu_init (Opened False \<lparr>user = 0, nice = 0, system = 0, idle = 0,
        iowait = 0, irq = 0, softirq = 0, steal = 0\<rparr>)
      = (0, \<lparr>first_call = False, last_total = 0, last_idle = 0\<rparr>)"
proof
  have "0 \<le> fst (get_cpu_usage st (Opened False t))"
    by (cases "first_call st") (simp_all add: get_cpu_usage_first get_cpu_usage_later percent_nonneg)
  then show "fst (get_cpu_usage st (Opened False t)) \<noteq> - 1" by simp
  show "get_cpu_usage cpu_init (Opened False \<lparr>user = 0, nice = 0, system = 0, idle = 0,
        iowait = 0, irq = 0, softirq = 0, steal = 0\<rparr>)
      = (0, \<lparr>first_call = False, last_total = 0, last_idle = 0\<rparr>)"
    by (simp add: get_cpu_usage_first cpu_init_def total_time_def idle_time_def non_idle_time_def)
qed


section \<open>The branches of \<^verbatim>\<open>get_disk_usage\<close>\<close>

text \<open>
  C8. When \<^verbatim>\<open>statvfs\<close> succeeds and the total space, the product of \<^verbatim>\<open>f_blocks\<close> and
  \<^verbatim>\<open>f_frsize\<close> in 64-bit arithmetic, is zero, the function returns \<open>0.0\<close>, which is
  not \<open>-1.0\<close>. It returns \<open>-1.0\<close> exactly when the call fails.
\<close>

theorem disk_zero_total:
  "(f_blocks filesystem_stats * f_frsize filesystem_stats = 0 \<longrightarrow>
      get_disk_usage (Some filesystem_stats) = 0 \<and> get_disk_usage (Some filesystem_stats) \<noteq> - 1)
   \<and> (get_disk_usage r = - 1 \<longleftrightarrow> r = None)"
proof -
  have ok: "0 \<le> get_disk_usage (Some s)" for s
    by (simp add: get_disk_usage_def Let_def percent_nonneg')
  have "get_disk_usage r = - 1 \<longleftrightarrow> r = None"
  proof (cases r)
    case None
    then show ?thesis by (simp add: get_disk_usage_def)
  next
    case (Some s)
    with ok [of s] show ?thesis by simp
  qed
  then show ?thesis by (simp add: get_disk_usage_def)
qed

theorem disk_zero_total_witness:
  "f_blocks \<lparr>f_blocks = 0, f_frsize = 4096, f_bavail = 0\<rparr>
     * f_frsize \<lparr>f_blocks = 0, f_frsize = 4096, f_bavail = 0\<rparr> = 0
   \<and> get_disk_usage (Some \<lparr>f_blocks = 0, f_frsize = 4096, f_bavail = 0\<rparr>) = 0
   \<and> get_disk_usage (Some \<lparr>f_blocks = 0, f_frsize = 4096, f_bavail = 0\<rparr>) \<noteq> - 1
   \<and> get_disk_usage None = - 1"
  using disk_zero_total [of "\<lparr>f_blocks = 0, f_frsize = 4096, f_bavail = 0\<rparr>" None]
  by simp


section \<open>The aggregate as a sum of contributions\<close>

lemma sum_rates_shift:
  "sum_rates prev xs (a + c, b + d) =
     (fst (sum_rates prev xs (a, b)) + c, snd (sum_rates prev xs (a, b)) + d)"
proof (induction xs arbitrary: a b)
  case Nil
  show ?case by simp
next
  case (Cons x xs)
  obtain name rx tx where x: "x = (name, rx, tx)" by (cases x)
  obtain prx ptx where p: "previous_counters prev name = (prx, ptx)"
    by (cases "previous_counters prev name")
  show ?case
  proof (cases "name = ''lo''")
    case True
    with x Cons.IH [of a b] show ?thesis by simp
  next
    case False
    have "sum_rates prev (x # xs) (a + c, b + d) =
        sum_rates prev xs (a + c + counter_delta rx prx, b + d + counter_delta tx ptx)"
      by (simp add: x p False)
    also have "\<dots> = sum_rates prev xs (a + counter_delta rx prx + c, b + counter_delta tx ptx + d)"
      by (simp add: ac_simps)
    also have "\<dots> = (fst (sum_rates prev xs (a + counter_delta rx prx, b + counter_delta tx ptx)) + c,
        snd (sum_rates prev xs (a + counter_delta rx prx, b + counter_delta tx ptx)) + d)"
      by (rule Cons.IH)
    also have "sum_rates prev xs (a + counter_delta rx prx, b + counter_delta tx ptx) =
        sum_rates prev (x # xs) (a, b)"
      by (simp add: x p False)
    finally show ?thesis .
  qed
qed

lemma sum_rates_append:
  "sum_rates prev (xs @ ys) acc = sum_rates prev ys (sum_rates prev xs acc)"
proof (induction xs arbitrary: acc)
  case Nil
  show ?case by simp
next
  case (Cons x xs)
  obtain name rx tx where x: "x = (name, rx, tx)" by (cases x)
  obtain a b where acc: "acc = (a, b)" by (cases acc)
  show ?case
    by (simp add: x acc Cons.IH Let_def split: prod.splits)
qed

lemma sum_rates_insert:
  "sum_rates prev (xs @ entry # ys) (0, 0) =
     (fst (sum_rates prev (xs @ ys) (0, 0)) + fst (contribution prev entry),
      snd (sum_rates prev (xs @ ys) (0, 0)) + snd (contribution prev entry))"
proof -
  obtain a b where ab: "sum_rates prev xs (0, 0) = (a, b)"
    by (cases "sum_rates prev xs (0, 0)")
  obtain c d where cd: "contribution prev entry = (c, d)"
    by (cases "contribution prev entry")
  have one: "sum_rates prev [entry] (a, b) = (a + c, b + d)"
    using sum_rates_shift [of prev "[entry]" 0 a 0 b] cd
    by (simp add: contribution_def add.commute)
  have "sum_rates prev (xs @ entry # ys) (0, 0) = sum_rates prev ys (sum_rates prev [entry] (a, b))"
    using sum_rates_append [of prev xs "entry # ys" "(0, 0)"]
      sum_rates_append [of prev "[entry]" ys "(a, b)"] ab by simp
  also have "\<dots> = sum_rates prev ys (a + c, b + d)"
    by (simp only: one)
  also have "\<dots> = (fst (sum_rates prev ys (a, b)) + c, snd (sum_rates prev ys (a, b)) + d)"
    by (rule sum_rates_shift)
  also have "sum_rates prev ys (a, b) = sum_rates prev (xs @ ys) (0, 0)"
    by (simp add: sum_rates_append ab)
  finally show ?thesis by (simp add: cd)
qed

lemma network_rates_insert:
  "fst (network_rates prev (xs @ entry # ys)) =
     (fst (fst (network_rates prev (xs @ ys))) + fst (contribution prev entry),
      snd (fst (network_rates prev (xs @ ys))) + snd (contribution prev entry))"
  by (simp add: network_rates_def time_interval_def sum_rates_insert split: prod.splits)

lemma contribution_lo: "contribution prev (''lo'', rx, tx) = (0, 0)"
  by (simp add: contribution_def)

lemma contribution_other:
  "name \<noteq> ''lo'' \<Longrightarrow> contribution prev (name, rx, tx) =
     (counter_delta rx (fst (previous_counters prev name)),
      counter_delta tx (snd (previous_counters prev name)))"
  by (simp add: contribution_def split: prod.splits)

text \<open>
  C3. An entry named \<open>lo\<close> adds nothing to either rate, whatever its counters: the two
  rates are those of the sample without it. From the previous sample
  \<open>{eth0: (1000, 500)}\<close> and the current sample \<open>{eth0: (1500, 500), lo: (9999, 9999)}\<close>
  the rates are \<open>500\<close> and \<open>0\<close>.
\<close>

theorem loopback_ignored:
  "fst (network_rates prev (xs @ (''lo'', rx, tx) # ys)) = fst (network_rates prev (xs @ ys))
   \<and> fst (network_rates [(''eth0'', 1000, 500)] [(''eth0'', 1500, 500), (''lo'', 9999, 9999)])
       = (500, 0)"
proof
  show "fst (network_rates prev (xs @ (''lo'', rx, tx) # ys)) = fst (network_rates prev (xs @ ys))"
    by (simp add: network_rates_insert contribution_lo)
  show "fst (network_rates [(''eth0'', 1000, 500)] [(''eth0'', 1500, 500), (''lo'', 9999, 9999)])
       = (500, 0)"
    by (simp add: network_rates_def time_interval_def previous_counters_def counter_delta_def)
qed

text \<open>
  C2. If the current receive counter of an interface is below its previous value, the
  interface adds \<open>0\<close> to the receive rate: the rate is that of the sample without the
  interface. The same holds for the transmit counter, and either holds whatever the
  other counter does. The subtraction of lines 424 and 425 is not evaluated in that case,
  so nothing wraps around.
\<close>

theorem decrease_clamped:
  "(current_rx < fst (previous_counters prev name) \<longrightarrow>
      fst (contribution prev (name, current_rx, current_tx)) = 0
      \<and> fst (fst (network_rates prev (xs @ (name, current_rx, current_tx) # ys))) =
          fst (fst (network_rates prev (xs @ ys))))
   \<and> (current_tx < snd (previous_counters prev name) \<longrightarrow>
      snd (contribution prev (name, current_rx, current_tx)) = 0
      \<and> snd (fst (network_rates prev (xs @ (name, current_rx, current_tx) # ys))) =
          snd (fst (network_rates prev (xs @ ys))))"
proof (cases "name = ''lo''")
  case True
  then show ?thesis by (simp add: network_rates_insert contribution_lo)
next
  case False
  then show ?thesis
    by (auto simp add: network_rates_insert contribution_other counter_delta_def)
qed

theorem decrease_clamped_witness:
  "(400 :: ull) < fst (previous_counters [(''eth0'', 1000, 500)] ''eth0'')
   \<and> (100 :: ull) < snd (previous_counters [(''eth0'', 1000, 500)] ''eth0'')
   \<and> fst (network_rates [(''eth0'', 1000, 500)] ([] @ (''eth0'', 400, 800) # [])) = (0, 300)
   \<and> fst (network_rates [(''eth0'', 1000, 500)] ([] @ (''eth0'', 1200, 100) # [])) = (200, 0)
   \<and> fst (network_rates [(''eth0'', 1000, 500)] ([] @ (''eth0'', 400, 100) # [])) = (0, 0)"
  using decrease_clamped [of 400 "[(''eth0'', 1000, 500)]" "''eth0''" 800 "[]" "[]"]
    decrease_clamped [of 1200 "[(''eth0'', 1000, 500)]" "''eth0''" 100 "[]" "[]"]
    decrease_clamped [of 400 "[(''eth0'', 1000, 500)]" "''eth0''" 100 "[]" "[]"]
  by (simp add: network_rates_def time_interval_def previous_counters_def counter_delta_def)

text \<open>
  C7, as the code has it. An interface other than \<open>lo\<close> that the previous map does not
  hold has previous counters \<open>0\<close> and \<open>0\<close>, and adds its current receive and transmit
  counters themselves to the two rates. The loop skips \<open>lo\<close> on line 411 before it looks
  at the previous map, so a new \<open>lo\<close> adds nothing.
\<close>

theorem new_interface_baseline:
  "map_of prev name = None \<Longrightarrow> name \<noteq> ''lo'' \<Longrightarrow>
     previous_counters prev name = (0, 0)
     \<and> contribution prev (name, current_rx, current_tx) = (current_rx, current_tx)
     \<and> fst (network_rates prev (xs @ (name, current_rx, current_tx) # ys)) =
         (fst (fst (network_rates prev (xs @ ys))) + current_rx,
          snd (fst (network_rates prev (xs @ ys))) + current_tx)"
  by (simp add: network_rates_insert contribution_other previous_counters_def counter_delta_def)

theorem new_interface_baseline_witness:
  "map_of [(''eth0'', 1000 :: ull, 500 :: ull)] ''wlan0'' = None \<and> ''wlan0'' \<noteq> ''lo''
   \<and> fst (network_rates [(''eth0'', 1000, 500)] ([(''eth0'', 1500, 500)] @ (''wlan0'', 70, 30) # []))
       = (570, 30)"
  using new_interface_baseline [of "[(''eth0'', 1000, 500)]" "''wlan0''" 70 30 "[(''eth0'', 1500, 500)]" "[]"]
  by (simp add: network_rates_def time_interval_def previous_counters_def counter_delta_def)

text \<open>
  The claim as written, for every interface, fails for a loopback interface that is new:
  with an empty previous map and the current sample \<open>{lo: (5, 7)}\<close> the rates are not
  \<open>5\<close> and \<open>7\<close> above those of the sample without \<open>lo\<close>.
\<close>

theorem new_loopback_counterexample:
  "map_of ([] :: net_stats) ''lo'' = None
   \<and> fst (network_rates [] ([] @ (''lo'', 5, 7) # [])) \<noteq>
       (fst (fst (network_rates [] ([] @ []))) + 5, snd (fst (network_rates [] ([] @ []))) + 7)"
  by (simp add: network_rates_def time_interval_def)

end
